theory Spec2Isabelle
  imports Complex_Main
begin

section \<open>Strategic frame sampling: \<^verbatim>\<open>extract_strategic_frames\<close> of utils/video\_processor.py\<close>

text \<open>
  The sampler picks a start anchor, scene-change candidates found by a sequential scan of a
  re-encoded temporary copy of the video, evenly spaced fill-in timestamps and an end anchor,
  and returns the decoded frames sorted by timestamp.

  Python floats are idealised as \<^typ>\<open>real\<close> (the scan is also given with the rounded
  operations as parameters, see \<open>scan_step_fp\<close>); \<^verbatim>\<open>max_frames\<close> is a Python integer, hence
  \<^typ>\<open>int\<close>. The \<^verbatim>\<open>options\<close> argument is never read by the function and is left out.
  Everything the function obtains from its collaborators (MoviePy, OpenCV, the file system) is a
  field of the video record below, so that each path of the code, the raising ones included, is a
  branch of the model.
\<close>

subsection \<open>The video and its collaborators\<close>

text \<open>
  A frame read by \<^verbatim>\<open>cap.read()\<close> is represented by the result of
  \<^verbatim>\<open>cv2.cvtColor(frame, cv2.COLOR_BGR2GRAY)\<close> on it: the list of its pixel intensities.
\<close>

type_synonym gray = "int list"

text \<open>
  \<^item> \<open>duration\<close>: \<^verbatim>\<open>video.duration\<close>;
  \<^item> \<open>get_frame\<close>: \<^verbatim>\<open>video.get_frame(t)\<close>, \<open>None\<close> when the call raises;
  \<^item> \<open>write_videofile\<close>: whether writing the (sub)clip to the temporary file returns
    (\<open>False\<close>: \<^verbatim>\<open>subclip\<close>/\<^verbatim>\<open>write_videofile\<close> raises);
  \<^item> \<open>cap_opened\<close>: \<^verbatim>\<open>cap.isOpened()\<close> of the capture opened on the temporary file;
  \<^item> \<open>cap_fps\<close>: \<^verbatim>\<open>cap.get(cv2.CAP_PROP_FPS)\<close>;
  \<^item> \<open>cap_frames\<close>: the frames \<^verbatim>\<open>cap.read()\<close> delivers, in order, before it reports
    \<^verbatim>\<open>ret = False\<close>.
\<close>

record 'f video =
  duration :: real
  get_frame :: "real \<Rightarrow> 'f option"
  write_videofile :: bool
  cap_opened :: bool
  cap_fps :: real
  cap_frames :: "gray list"

text \<open>
  The mutable locals of the sampler, together with the two effects the claims speak about:
  the \<^verbatim>\<open>get_frame\<close> requests issued so far (\<open>decoded\<close>) and whether the temporary file of the
  scene detection exists on disk (\<open>temp_file\<close>).
\<close>

record 'f sampler =
  frames :: "'f list"
  timestamps :: "real list"
  decoded :: "real list"
  temp_file :: bool

datatype error = ZeroDivisionError

datatype 'f result = Raised | Returned "'f list" "real list"

subsection \<open>Anchors and scan parameters\<close>

definition first_time :: "real \<Rightarrow> real" where
  "first_time d = min 0.5 (d * 0.1)"

definition last_time :: "real \<Rightarrow> real" where
  "last_time d = max (d - 0.5) (d * 0.9)"

definition subclip_duration :: "real \<Rightarrow> real" where
  "subclip_duration d = (if d > 60 then 60 else d)"

definition threshold :: real where
  "threshold = 30.0"

definition min_scene_length :: "real \<Rightarrow> int \<Rightarrow> real" where
  "min_scene_length d middle_frames =
     max 1.0 (subclip_duration d / real_of_int (middle_frames * 2))"

text \<open>
  \<^verbatim>\<open>np.mean(cv2.absdiff(prev_gray, curr_gray))\<close>. The frames of one capture have one size;
  on lists of different lengths the model compares the common prefix.
\<close>

definition mean_diff :: "gray \<Rightarrow> gray \<Rightarrow> real" where
  "mean_diff prev_gray curr_gray =
     (let frame_diff = map2 (\<lambda>a b. \<bar>a - b\<bar>) prev_gray curr_gray
      in real_of_int (sum_list frame_diff) / real (length frame_diff))"

subsection \<open>The scene-change scan (the \<^verbatim>\<open>while cap.isOpened()\<close> loop)\<close>

record scan =
  prev_frame :: "gray option"
  scene_timestamps :: "real list"
  frame_count :: nat

text \<open>
  One iteration either goes on (\<open>Continue\<close>: \<^verbatim>\<open>continue\<close> or the end of the body), leaves the
  loop (\<open>Break\<close>: enough scenes) or raises (\<open>Failed\<close>: the division by a frame rate of zero).
\<close>

datatype scan_outcome = Continue scan | Break scan | Failed error

definition scan_step ::
  "real \<Rightarrow> real \<Rightarrow> int \<Rightarrow> real \<Rightarrow> real \<Rightarrow> scan \<Rightarrow> gray \<Rightarrow> scan_outcome" where
  "scan_step first min_len middle_frames d fps st frame =
     (if fps = 0 then Failed ZeroDivisionError
      else
        let frame_time = real (frame_count st) / fps;
            st1 = st\<lparr>frame_count := frame_count st + 1\<rparr>
        in if frame_time < first then Continue st1
           else if scene_timestamps st1 \<noteq> [] \<and> frame_time - last (scene_timestamps st1) < min_len
             then Continue st1
           else (case prev_frame st1 of
               None \<Rightarrow> Continue (st1\<lparr>prev_frame := Some frame\<rparr>)
             | Some p \<Rightarrow>
                 if mean_diff p frame > threshold then
                   let original_time = (if d > 60 then min frame_time d else frame_time);
                       st2 = st1\<lparr>scene_timestamps := scene_timestamps st1 @ [original_time]\<rparr>
                   in if int (length (scene_timestamps st2)) \<ge> middle_frames then Break st2
                      else Continue (st2\<lparr>prev_frame := Some frame\<rparr>)
                 else Continue (st1\<lparr>prev_frame := Some frame\<rparr>)))"

fun scan_loop ::
  "real \<Rightarrow> real \<Rightarrow> int \<Rightarrow> real \<Rightarrow> real \<Rightarrow> scan \<Rightarrow> gray list \<Rightarrow> scan_outcome" where
  "scan_loop first min_len middle_frames d fps st [] = Continue st"
| "scan_loop first min_len middle_frames d fps st (frame # rest) =
     (case scan_step first min_len middle_frames d fps st frame of
        Continue st' \<Rightarrow> scan_loop first min_len middle_frames d fps st' rest
      | Break st' \<Rightarrow> Break st'
      | Failed e \<Rightarrow> Failed e)"

definition scan_init :: scan where
  "scan_init = \<lparr>prev_frame = None, scene_timestamps = [], frame_count = 0\<rparr>"

text \<open>
  The code computes on doubles. Comparisons and \<^verbatim>\<open>min\<close> are exact there; the three operations
  of an iteration whose result is rounded are the division \<^verbatim>\<open>frame_count / fps\<close>, the
  subtraction \<^verbatim>\<open>frame_time - scene_timestamps[-1]\<close> and \<^verbatim>\<open>np.mean\<close>. The iteration and the
  loop once more, line by line as above, with these three as parameters (\<open>fdiv\<close>,
  \<open>fsub\<close>, \<open>fmean\<close>: whatever the machine computes), for the statement that depends on the
  outcome of a single test. With the exact operations they are \<open>scan_step\<close> and \<open>scan_loop\<close>.
\<close>

definition absdiff :: "gray \<Rightarrow> gray \<Rightarrow> int list" where
  "absdiff prev_gray curr_gray = map2 (\<lambda>a b. \<bar>a - b\<bar>) prev_gray curr_gray"

definition scan_step_fp ::
  "(real \<Rightarrow> real \<Rightarrow> real) \<Rightarrow> (real \<Rightarrow> real \<Rightarrow> real) \<Rightarrow> (int list \<Rightarrow> real) \<Rightarrow>
   real \<Rightarrow> real \<Rightarrow> int \<Rightarrow> real \<Rightarrow> real \<Rightarrow> scan \<Rightarrow> gray \<Rightarrow> scan_outcome" where
  "scan_step_fp fdiv fsub fmean first min_len middle_frames d fps st frame =
     (if fps = 0 then Failed ZeroDivisionError
      else
        let frame_time = fdiv (real (frame_count st)) fps;
            st1 = st\<lparr>frame_count := frame_count st + 1\<rparr>
        in if frame_time < first then Continue st1
           else if scene_timestamps st1 \<noteq> [] \<and>
                   fsub frame_time (last (scene_timestamps st1)) < min_len
             then Continue st1
           else (case prev_frame st1 of
               None \<Rightarrow> Continue (st1\<lparr>prev_frame := Some frame\<rparr>)
             | Some p \<Rightarrow>
                 if fmean (absdiff p frame) > threshold then
                   let original_time = (if d > 60 then min frame_time d else frame_time);
                       st2 = st1\<lparr>scene_timestamps := scene_timestamps st1 @ [original_time]\<rparr>
                   in if int (length (scene_timestamps st2)) \<ge> middle_frames then Break st2
                      else Continue (st2\<lparr>prev_frame := Some frame\<rparr>)
                 else Continue (st1\<lparr>prev_frame := Some frame\<rparr>)))"

fun scan_loop_fp ::
  "(real \<Rightarrow> real \<Rightarrow> real) \<Rightarrow> (real \<Rightarrow> real \<Rightarrow> real) \<Rightarrow> (int list \<Rightarrow> real) \<Rightarrow>
   real \<Rightarrow> real \<Rightarrow> int \<Rightarrow> real \<Rightarrow> real \<Rightarrow> scan \<Rightarrow> gray list \<Rightarrow> scan_outcome" where
  "scan_loop_fp fdiv fsub fmean first min_len middle_frames d fps st [] = Continue st"
| "scan_loop_fp fdiv fsub fmean first min_len middle_frames d fps st (frame # rest) =
     (case scan_step_fp fdiv fsub fmean first min_len middle_frames d fps st frame of
        Continue st' \<Rightarrow>
          scan_loop_fp fdiv fsub fmean first min_len middle_frames d fps st' rest
      | Break st' \<Rightarrow> Break st'
      | Failed e \<Rightarrow> Failed e)"

text \<open>The exact mean, as in \<open>mean_diff\<close>.\<close>

definition exact_mean :: "int list \<Rightarrow> real" where
  "exact_mean frame_diff = real_of_int (sum_list frame_diff) / real (length frame_diff)"

text \<open>The scan with a given spacing; \<open>Inl\<close> is the exception leaving the loop.\<close>

definition scan_with :: "'f video \<Rightarrow> real \<Rightarrow> int \<Rightarrow> error + real list" where
  "scan_with v min_len middle_frames =
     (if \<not> cap_opened v then Inr []
      else case scan_loop (first_time (duration v)) min_len middle_frames (duration v)
                  (cap_fps v) scan_init (cap_frames v) of
             Continue st \<Rightarrow> Inr (scene_timestamps st)
           | Break st \<Rightarrow> Inr (scene_timestamps st)
           | Failed e \<Rightarrow> Inl e)"

definition scene_scan :: "'f video \<Rightarrow> int \<Rightarrow> error + real list" where
  "scene_scan v middle_frames =
     scan_with v (min_scene_length (duration v) middle_frames) middle_frames"

subsection \<open>Decoding a frame\<close>

text \<open>
  \<^verbatim>\<open>frames.append(np.array(video.get_frame(t))); timestamps.append(t)\<close>: when the decode raises
  (\<open>Inl\<close>), neither list has grown.
\<close>

definition grab :: "'f video \<Rightarrow> real \<Rightarrow> 'f sampler \<Rightarrow> 'f sampler + 'f sampler" where
  "grab v t st =
     (let st1 = st\<lparr>decoded := decoded st @ [t]\<rparr>
      in case get_frame v t of
           None \<Rightarrow> Inl st1
         | Some f \<Rightarrow> Inr (st1\<lparr>frames := frames st1 @ [f], timestamps := timestamps st1 @ [t]\<rparr>))"

subsection \<open>The scene-detection branch (the body of the \<^verbatim>\<open>try\<close>)\<close>

fun scene_frames :: "'f video \<Rightarrow> real list \<Rightarrow> 'f sampler \<Rightarrow> 'f sampler + 'f sampler" where
  "scene_frames v [] st = Inr st"
| "scene_frames v (time # rest) st =
     (if \<bar>time - first_time (duration v)\<bar> < 1.0 then scene_frames v rest st
      else if duration v - time < 1.0 then scene_frames v rest st
      else case grab v time st of
             Inl st' \<Rightarrow> Inl st'
           | Inr st' \<Rightarrow> scene_frames v rest st')"

text \<open>
  \<^verbatim>\<open>NamedTemporaryFile(delete=False)\<close> creates the file; \<^verbatim>\<open>os.remove\<close> after the scan is the only
  statement that deletes it. \<open>Inl\<close> is an exception raised inside the \<^verbatim>\<open>try\<close>, with the state
  at that point.
\<close>

definition scene_detection :: "'f video \<Rightarrow> int \<Rightarrow> 'f sampler \<Rightarrow> 'f sampler + 'f sampler" where
  "scene_detection v middle_frames st =
     (let st1 = st\<lparr>temp_file := True\<rparr>
      in if \<not> write_videofile v then Inl st1
         else case scene_scan v middle_frames of
                Inl e \<Rightarrow> Inl st1
              | Inr scenes \<Rightarrow>
                  let st2 = st1\<lparr>temp_file := False\<rparr>
                  in if scenes \<noteq> []
                     then scene_frames v (take (nat middle_frames) (sort (remdups scenes))) st2
                     else Inr st2)"

text \<open>The state a block has reached, whether it ended normally or by an exception.\<close>

definition reached :: "'a + 'a \<Rightarrow> 'a" where
  "reached r = (case r of Inl st \<Rightarrow> st | Inr st \<Rightarrow> st)"

text \<open>The \<^verbatim>\<open>except Exception\<close> clause only prints: the sampler goes on with the state reached.\<close>

definition scene_phase :: "'f video \<Rightarrow> int \<Rightarrow> 'f sampler \<Rightarrow> 'f sampler" where
  "scene_phase v max_frames st =
     (let middle_frames = max_frames - 2
      in if duration v > 3 \<and> middle_frames > 0
         then reached (scene_detection v middle_frames st)
         else st)"

subsection \<open>Evenly spaced fill-in and the end anchor\<close>

text \<open>
  \<open>existing\<close> is \<^verbatim>\<open>existing_timestamps\<close>; the source keeps it as a set and only asks whether
  some member is closer than one second, so a list serves.
\<close>

fun uniform_loop ::
  "'f video \<Rightarrow> real \<Rightarrow> nat list \<Rightarrow> real list \<Rightarrow> 'f sampler \<Rightarrow> 'f sampler + 'f sampler" where
  "uniform_loop v step [] existing st = Inr st"
| "uniform_loop v step (i # rest) existing st =
     (let time = min (first_time (duration v) + real i * step) (duration v - 1)
      in if list_ex (\<lambda>t. \<bar>time - t\<bar> < 1.0) existing then uniform_loop v step rest existing st
         else case grab v time st of
                Inl st' \<Rightarrow> Inl st'
              | Inr st' \<Rightarrow> uniform_loop v step rest (existing @ [time]) st')"

definition uniform_phase :: "'f video \<Rightarrow> int \<Rightarrow> 'f sampler \<Rightarrow> 'f sampler + 'f sampler" where
  "uniform_phase v max_frames st =
     (if int (length (frames st)) < max_frames - 1 then
        let remaining_frames = max_frames - 1 - int (length (frames st))
        in if remaining_frames > 0
           then uniform_loop v (duration v / real_of_int (remaining_frames + 2))
                  [1 ..< nat remaining_frames + 1] (timestamps st) st
           else Inr st
      else Inr st)"

definition last_phase :: "'f video \<Rightarrow> 'f sampler \<Rightarrow> 'f sampler + 'f sampler" where
  "last_phase v st =
     (if \<not> list_ex (\<lambda>t. \<bar>last_time (duration v) - t\<bar> < 1.0) (timestamps st)
      then grab v (last_time (duration v)) st
      else Inr st)"

subsection \<open>The sampler\<close>

definition sampler_init :: "'f sampler" where
  "sampler_init = \<lparr>frames = [], timestamps = [], decoded = [], temp_file = False\<rparr>"

text \<open>Everything after the test of the duration, up to the final sort.\<close>

definition sample_body :: "'f video \<Rightarrow> int \<Rightarrow> 'f sampler + 'f sampler" where
  "sample_body v max_frames =
     (case grab v (first_time (duration v)) sampler_init of
        Inl st \<Rightarrow> Inl st
      | Inr st \<Rightarrow>
          (case uniform_phase v max_frames (scene_phase v max_frames st) of
             Inl st' \<Rightarrow> Inl st'
           | Inr st' \<Rightarrow> last_phase v st'))"

definition extract_strategic_frames :: "'f video \<Rightarrow> int \<Rightarrow> 'f result" where
  "extract_strategic_frames v max_frames =
     (if duration v \<le> 0 then Returned [] []
      else case sample_body v max_frames of
             Inl st \<Rightarrow> Raised
           | Inr st \<Rightarrow>
               let frames_and_times = sort_key snd (zip (frames st) (timestamps st))
               in Returned (map fst frames_and_times) (map snd frames_and_times))"

text \<open>The effects of a call: the state when the function returns or when the exception leaves it.\<close>

definition final_state :: "'f video \<Rightarrow> int \<Rightarrow> 'f sampler" where
  "final_state v max_frames =
     (if duration v \<le> 0 then sampler_init else reached (sample_body v max_frames))"

subsection \<open>Concrete videos\<close>

text \<open>
  A video of the given duration whose every decode succeeds (the frame at \<open>t\<close> is \<open>t\<close> itself)
  and whose capture delivers the given frames at the given rate.
\<close>

definition clip :: "real \<Rightarrow> real \<Rightarrow> gray list \<Rightarrow> real video" where
  "clip d fps fs =
     \<lparr>duration = d, get_frame = Some, write_videofile = True,
      cap_opened = True, cap_fps = fps, cap_frames = fs\<rparr>"

subsection \<open>Notions used in the statements and proofs\<close>

text \<open>Any two entries of the list, at different positions, are at least one second apart.\<close>

definition apart :: "real list \<Rightarrow> bool" where
  "apart ts = sorted_wrt (\<lambda>a b. 1 \<le> \<bar>a - b\<bar>) ts"

text \<open>
  What the scan maintains of its candidates, in the order of emission: a later one is at least
  the spacing after an earlier one, unless it was clamped to the duration of a long video.
\<close>

definition chained :: "real \<Rightarrow> real \<Rightarrow> real list \<Rightarrow> bool" where
  "chained d m es = sorted_wrt (\<lambda>a b. a + m \<le> b \<or> (60 < d \<and> b = d)) es"

text \<open>The test a scene candidate passes before it is decoded.\<close>

definition keeps :: "real \<Rightarrow> real \<Rightarrow> bool" where
  "keeps d time = (\<not> \<bar>time - first_time d\<bar> < 1.0 \<and> \<not> d - time < 1.0)"

text \<open>The candidates of an outcome of the scan that did not raise.\<close>

fun emitted :: "scan_outcome \<Rightarrow> real list" where
  "emitted (Continue st) = scene_timestamps st"
| "emitted (Break st) = scene_timestamps st"
| "emitted (Failed e) = []"

text \<open>
  The invariant of the sampler: one timestamp per decoded frame, and the chosen timestamps
  pairwise at least one second apart.
\<close>

definition sound :: "'f sampler \<Rightarrow> bool" where
  "sound st \<longleftrightarrow> length (frames st) = length (timestamps st) \<and> apart (timestamps st)"

section \<open>Properties of the model\<close>

subsection \<open>Sorting by the timestamp\<close>

lemma map_insort_key: "map f (insort_key f x xs) = insort (f x) (map f xs)"
  by (induction xs) simp_all

lemma map_sort_key: "map f (sort_key f xs) = sort (map f xs)"
  by (induction xs) (simp_all add: map_insort_key)

lemma sorted_times:
  "length fs = length ts \<Longrightarrow> map snd (sort_key snd (zip fs ts)) = sort ts"
  by (simp add: map_sort_key)

subsection \<open>Spacing\<close>

lemma apart_iff:
  "apart ts \<longleftrightarrow> distinct ts \<and> (\<forall>a\<in>set ts. \<forall>b\<in>set ts. a \<noteq> b \<longrightarrow> 1 \<le> \<bar>a - b\<bar>)"
proof (induction ts)
  case Nil
  show ?case by (simp add: apart_def)
next
  case (Cons t ts)
  have "apart (t # ts) \<longleftrightarrow> (\<forall>b\<in>set ts. 1 \<le> \<bar>t - b\<bar>) \<and> apart ts"
    by (simp add: apart_def)
  also have "\<dots> \<longleftrightarrow> distinct (t # ts) \<and>
      (\<forall>a\<in>set (t # ts). \<forall>b\<in>set (t # ts). a \<noteq> b \<longrightarrow> 1 \<le> \<bar>a - b\<bar>)"
    unfolding Cons.IH by (auto simp: abs_minus_commute)
  finally show ?case .
qed

lemma apart_snoc:
  "apart (ts @ [t]) \<longleftrightarrow> apart ts \<and> (\<forall>a\<in>set ts. 1 \<le> \<bar>a - t\<bar>)"
  by (simp add: apart_def sorted_wrt_append)

lemma apart_sort: "apart (sort ts) = apart ts"
  by (simp add: apart_iff)

lemma apart_nth:
  assumes "apart ts" "i < length ts" "j < length ts" "i \<noteq> j"
  shows "1 \<le> \<bar>ts ! i - ts ! j\<bar>"
proof -
  from assms(1) have d: "distinct ts"
    and p: "\<And>a b. a \<in> set ts \<Longrightarrow> b \<in> set ts \<Longrightarrow> a \<noteq> b \<Longrightarrow> 1 \<le> \<bar>a - b\<bar>"
    by (auto simp: apart_iff)
  from d assms(2-4) have "ts ! i \<noteq> ts ! j" by (simp add: nth_eq_iff_index_eq)
  with assms(2,3) show ?thesis by (intro p) simp_all
qed

lemma list_ex_close: "list_ex (\<lambda>t. \<bar>x - t\<bar> < 1) ts \<longleftrightarrow> \<not> (\<forall>a\<in>set ts. 1 \<le> \<bar>a - x\<bar>)"
  for x :: real
  by (auto simp: list_ex_iff abs_minus_commute not_le)

subsection \<open>grab\<close>

lemma grab_Inr:
  assumes "grab v t st = Inr st'"
  shows "timestamps st' = timestamps st @ [t]"
    and "length (frames st') = Suc (length (frames st))"
    and "decoded st' = decoded st @ [t]"
    and "temp_file st' = temp_file st"
  using assms by (auto simp: grab_def Let_def split: option.splits)

lemma grab_Inl:
  assumes "grab v t st = Inl st'"
  shows "timestamps st' = timestamps st" and "frames st' = frames st"
    and "temp_file st' = temp_file st" and "get_frame v t = None"
  using assms by (auto simp: grab_def Let_def split: option.splits)

lemma grab_total:
  "get_frame v t \<noteq> None \<Longrightarrow> \<exists>st'. grab v t st = Inr st'"
  by (auto simp: grab_def Let_def split: option.splits)

subsection \<open>The scan keeps its candidates chained\<close>

lemma min_scene_length_ge: "1 \<le> min_scene_length d m"
  by (simp add: min_scene_length_def)

lemma chained_Nil: "chained d m []"
  by (simp add: chained_def)

lemma chained_snoc:
  assumes c: "chained d m es" and m: "0 \<le> m"
    and far: "es \<noteq> [] \<Longrightarrow> last es + m \<le> t"
  shows "chained d m (es @ [if 60 < d then min t d else t])"
proof -
  let ?y = "if 60 < d then min t d else t"
  have "a + m \<le> ?y \<or> (60 < d \<and> ?y = d)" if a: "a \<in> set es" for a
  proof -
    from a have ne: "es \<noteq> []" by auto
    then have es: "es = butlast es @ [last es]" by simp
    from far ne have t: "last es + m \<le> t" by simp
    have al: "a = last es \<or> a + m \<le> last es \<or> (60 < d \<and> last es = d)"
    proof (cases "a = last es")
      case False
      with a es have "a \<in> set (butlast es)"
        by (metis Un_iff empty_iff empty_set set_ConsD set_append)
      moreover from c es have "sorted_wrt (\<lambda>a b. a + m \<le> b \<or> (60 < d \<and> b = d)) (butlast es @ [last es])"
        by (simp add: chained_def)
      ultimately show ?thesis by (auto simp: sorted_wrt_append)
    qed simp
    show ?thesis
    proof (cases "60 < d \<and> d \<le> t")
      case True
      then show ?thesis by simp
    next
      case False
      then have y: "?y = t" by auto
      from al t m False show ?thesis unfolding y by auto
    qed
  qed
  with c show ?thesis by (simp add: chained_def sorted_wrt_append)
qed

lemma scan_step_chained:
  assumes "chained d m (scene_timestamps st)" "0 \<le> m"
  shows "chained d m (emitted (scan_step first m middle d fps st frame))"
proof -
  have snoc: "chained d m (scene_timestamps st @ [if 60 < d then min t d else t])"
    if "\<not> (scene_timestamps st \<noteq> [] \<and> t - last (scene_timestamps st) < m)" for t
    using that by (intro chained_snoc assms) auto
  show ?thesis
    using assms(1) snoc [of "real (frame_count st) / fps"]
    by (auto simp: scan_step_def Let_def chained_Nil split: option.splits)
qed

lemma scan_loop_chained:
  assumes "chained d m (scene_timestamps st)" "0 \<le> m"
  shows "chained d m (emitted (scan_loop first m middle d fps st fs))"
  using assms(1)
proof (induction fs arbitrary: st)
  case Nil
  then show ?case by simp
next
  case (Cons f fs)
  from scan_step_chained [OF Cons.prems assms(2), of first middle fps f]
  show ?case
    by (cases "scan_step first m middle d fps st f") (auto simp: Cons.IH chained_Nil)
qed

lemma chained_kept:
  assumes c: "chained d m es" and m: "1 \<le> m"
    and a: "a \<in> set es" and b: "b \<in> set es" and ne: "a \<noteq> b"
    and ka: "\<not> d - a < 1" and kb: "\<not> d - b < 1"
  shows "1 \<le> \<bar>a - b\<bar>"
proof -
  from a obtain i where i: "i < length es" "es ! i = a" by (auto simp: in_set_conv_nth)
  from b obtain j where j: "j < length es" "es ! j = b" by (auto simp: in_set_conv_nth)
  from ne i j have "i \<noteq> j" by auto
  then consider "i < j" | "j < i" by linarith
  then show ?thesis
  proof cases
    case 1
    with c i j have "a + m \<le> b \<or> (60 < d \<and> b = d)"
      by (auto simp: chained_def sorted_wrt_iff_nth_less)
    with kb m show ?thesis by auto
  next
    case 2
    with c i j have "b + m \<le> a \<or> (60 < d \<and> a = d)"
      by (auto simp: chained_def sorted_wrt_iff_nth_less)
    with ka m show ?thesis by auto
  qed
qed

lemma scene_scan_spaced:
  assumes "scene_scan v middle = Inr scenes"
    and "a \<in> set scenes" "b \<in> set scenes" "a \<noteq> b"
    and "\<not> duration v - a < 1" "\<not> duration v - b < 1"
  shows "1 \<le> \<bar>a - b\<bar>"
proof -
  let ?m = "min_scene_length (duration v) middle"
  have "chained (duration v) ?m (emitted (scan_loop (first_time (duration v)) ?m middle
          (duration v) (cap_fps v) scan_init (cap_frames v)))"
    using min_scene_length_ge [of "duration v" middle]
    by (intro scan_loop_chained) (simp_all add: chained_Nil scan_init_def)
  with assms(1) have "chained (duration v) ?m scenes"
    by (auto simp: scene_scan_def scan_with_def chained_def split: if_splits scan_outcome.splits)
  then show ?thesis
    using min_scene_length_ge assms(2-) by (rule chained_kept)
qed

subsection \<open>The phases keep the chosen timestamps apart\<close>

lemma grab_sound:
  assumes "sound st" "\<forall>a\<in>set (timestamps st). 1 \<le> \<bar>a - t\<bar>"
  shows "sound (reached (grab v t st))"
  using assms by (auto simp: grab_def Let_def reached_def sound_def apart_snoc split: option.splits)

lemma grab_reached:
  "set (timestamps st) \<subseteq> set (timestamps (reached (grab v t st)))"
  "set (timestamps (reached (grab v t st))) \<subseteq> insert t (set (timestamps st))"
  "temp_file (reached (grab v t st)) = temp_file st"
  "length (frames (reached (grab v t st))) \<le> Suc (length (frames st))"
  by (auto simp: grab_def Let_def reached_def split: option.splits)

lemma scene_frames_sound:
  assumes "sound st" "distinct cs"
    and "\<And>a b. a \<in> set cs \<Longrightarrow> b \<in> set cs \<Longrightarrow> a \<noteq> b \<Longrightarrow> keeps (duration v) a \<Longrightarrow>
           keeps (duration v) b \<Longrightarrow> 1 \<le> \<bar>a - b\<bar>"
    and "\<And>c t. c \<in> set cs \<Longrightarrow> keeps (duration v) c \<Longrightarrow> t \<in> set (timestamps st) \<Longrightarrow>
           1 \<le> \<bar>t - c\<bar>"
  shows "sound (reached (scene_frames v cs st))"
  using assms
proof (induction cs arbitrary: st)
  case Nil
  then show ?case by (simp add: reached_def)
next
  case (Cons c cs)
  show ?case
  proof (cases "keeps (duration v) c")
    case False
    have "sound (reached (scene_frames v cs st))"
      using Cons.prems by (intro Cons.IH) auto
    with False show ?thesis by (auto simp: keeps_def)
  next
    case True
    have far: "\<forall>a\<in>set (timestamps st). 1 \<le> \<bar>a - c\<bar>"
      using Cons.prems(4) [of c] True by simp
    show ?thesis
    proof (cases "grab v c st")
      case (Inl st')
      with grab_sound [OF Cons.prems(1) far, of v] True show ?thesis
        by (simp add: keeps_def reached_def)
    next
      case (Inr st')
      with grab_sound [OF Cons.prems(1) far, of v] have s: "sound st'"
        by (simp add: reached_def)
      from Inr have ts: "timestamps st' = timestamps st @ [c]" by (rule grab_Inr)
      have "sound (reached (scene_frames v cs st'))"
      proof (intro Cons.IH s)
        show "distinct cs" using Cons.prems(2) by simp
      next
        fix a b assume "a \<in> set cs" "b \<in> set cs" "a \<noteq> b"
          "keeps (duration v) a" "keeps (duration v) b"
        then show "1 \<le> \<bar>a - b\<bar>" using Cons.prems(3) by simp
      next
        fix x t assume x: "x \<in> set cs" "keeps (duration v) x" and t: "t \<in> set (timestamps st')"
        from t ts consider "t \<in> set (timestamps st)" | "t = c" by auto
        then show "1 \<le> \<bar>t - x\<bar>"
        proof cases
          case 1
          with x show ?thesis using Cons.prems(4) by simp
        next
          case 2
          from x Cons.prems(2) have "c \<noteq> x" by auto
          with x True show ?thesis unfolding 2 using Cons.prems(3) [of c x] by simp
        qed
      qed
      with True Inr show ?thesis by (simp add: keeps_def)
    qed
  qed
qed

lemma scene_frames_Cons_cases:
  obtains (skip) "scene_frames v (c # cs) st = scene_frames v cs st"
  | (raise) st' where "grab v c st = Inl st'" "scene_frames v (c # cs) st = Inl st'"
  | (go) st' where "grab v c st = Inr st'" "scene_frames v (c # cs) st = scene_frames v cs st'"
proof (cases "keeps (duration v) c")
  case False
  then have "scene_frames v (c # cs) st = scene_frames v cs st"
    by (auto simp: keeps_def)
  then show thesis by (rule skip)
next
  case True
  show thesis
  proof (cases "grab v c st")
    case (Inl st')
    with True have "scene_frames v (c # cs) st = Inl st'" by (simp add: keeps_def)
    with Inl show thesis by (rule raise)
  next
    case (Inr st')
    with True have "scene_frames v (c # cs) st = scene_frames v cs st'" by (simp add: keeps_def)
    with Inr show thesis by (rule go)
  qed
qed

lemma scene_frames_grows:
  "set (timestamps st) \<subseteq> set (timestamps (reached (scene_frames v cs st)))"
proof (induction cs arbitrary: st)
  case Nil
  show ?case by (simp add: reached_def)
next
  case (Cons c cs)
  show ?case
  proof (cases rule: scene_frames_Cons_cases [of v c cs st])
    case skip
    then show ?thesis using Cons.IH by simp
  next
    case (raise st')
    then show ?thesis using grab_Inl(1) [of v c st st'] by (simp add: reached_def)
  next
    case (go st')
    then show ?thesis using Cons.IH [of st'] grab_Inr(1) [of v c st st'] by auto
  qed
qed

lemma scene_frames_temp_file:
  "temp_file (reached (scene_frames v cs st)) = temp_file st"
proof (induction cs arbitrary: st)
  case Nil
  show ?case by (simp add: reached_def)
next
  case (Cons c cs)
  show ?case
  proof (cases rule: scene_frames_Cons_cases [of v c cs st])
    case skip
    then show ?thesis using Cons.IH by simp
  next
    case (raise st')
    then show ?thesis using grab_Inl(3) [of v c st st'] by (simp add: reached_def)
  next
    case (go st')
    then show ?thesis using Cons.IH [of st'] grab_Inr(4) [of v c st st'] by auto
  qed
qed

lemma scene_frames_length:
  "length (frames (reached (scene_frames v cs st))) \<le> length (frames st) + length cs"
proof (induction cs arbitrary: st)
  case Nil
  show ?case by (simp add: reached_def)
next
  case (Cons c cs)
  show ?case
  proof (cases rule: scene_frames_Cons_cases [of v c cs st])
    case skip
    then show ?thesis using Cons.IH [of st] by simp
  next
    case (raise st')
    then show ?thesis using grab_Inl(2) [of v c st st'] by (simp add: reached_def)
  next
    case (go st')
    then show ?thesis using Cons.IH [of st'] grab_Inr(2) [of v c st st'] by auto
  qed
qed

lemma scene_frames_total:
  assumes "\<forall>t. get_frame v t \<noteq> None"
  shows "\<exists>st'. scene_frames v cs st = Inr st'"
proof (induction cs arbitrary: st)
  case Nil
  show ?case by simp
next
  case (Cons c cs)
  show ?case
  proof (cases rule: scene_frames_Cons_cases [of v c cs st])
    case skip
    then show ?thesis using Cons.IH by simp
  next
    case (raise st')
    then show ?thesis using grab_Inl(4) [of v c st st'] assms by simp
  next
    case (go st')
    then show ?thesis using Cons.IH [of st'] by simp
  qed
qed

lemma sound_temp_file: "sound (st\<lparr>temp_file := b\<rparr>) = sound st"
  by (simp add: sound_def)

subsection \<open>The scene-detection branch\<close>

lemma scene_candidates:
  assumes "scene_scan v middle = Inr scenes"
  defines "cs \<equiv> take (nat middle) (sort (remdups scenes))"
  shows "distinct cs" and "length cs \<le> nat middle"
    and "\<And>a b. a \<in> set cs \<Longrightarrow> b \<in> set cs \<Longrightarrow> a \<noteq> b \<Longrightarrow> keeps (duration v) a \<Longrightarrow>
           keeps (duration v) b \<Longrightarrow> 1 \<le> \<bar>a - b\<bar>"
proof -
  show "distinct cs" "length cs \<le> nat middle" by (simp_all add: cs_def)
  fix a b assume "a \<in> set cs" "b \<in> set cs" and ne: "a \<noteq> b"
    and k: "keeps (duration v) a" "keeps (duration v) b"
  then have "a \<in> set scenes" "b \<in> set scenes"
    by (auto simp: cs_def dest: in_set_takeD)
  with assms(1) show "1 \<le> \<bar>a - b\<bar>"
    using ne k by (intro scene_scan_spaced [of v middle scenes]) (simp_all add: keeps_def)
qed

lemma scene_detection_cases:
  obtains (fail) "scene_detection v middle st = Inl (st\<lparr>temp_file := True\<rparr>)"
  | (none) "scene_detection v middle st = Inr (st\<lparr>temp_file := False\<rparr>)"
  | (some) scenes where "scene_scan v middle = Inr scenes"
      "scene_detection v middle st =
         scene_frames v (take (nat middle) (sort (remdups scenes))) (st\<lparr>temp_file := False\<rparr>)"
proof (cases "write_videofile v")
  case False
  then have "scene_detection v middle st = Inl (st\<lparr>temp_file := True\<rparr>)"
    by (simp add: scene_detection_def)
  then show thesis by (rule fail)
next
  case True
  show thesis
  proof (cases "scene_scan v middle")
    case (Inl e)
    with True have "scene_detection v middle st = Inl (st\<lparr>temp_file := True\<rparr>)"
      by (simp add: scene_detection_def)
    then show thesis by (rule fail)
  next
    case (Inr scenes)
    show thesis
    proof (cases "scenes = []")
      case True
      with \<open>write_videofile v\<close> Inr
      have "scene_detection v middle st = Inr (st\<lparr>temp_file := False\<rparr>)"
        by (simp add: scene_detection_def)
      then show thesis by (rule none)
    next
      case False
      with \<open>write_videofile v\<close> Inr
      have "scene_detection v middle st =
         scene_frames v (take (nat middle) (sort (remdups scenes))) (st\<lparr>temp_file := False\<rparr>)"
        by (simp add: scene_detection_def)
      with Inr show thesis by (rule some)
    qed
  qed
qed

lemma scene_detection_sound:
  assumes "sound st" "set (timestamps st) \<subseteq> {first_time (duration v)}"
  shows "sound (reached (scene_detection v middle st))"
proof (cases rule: scene_detection_cases [of v middle st])
  case fail
  with assms(1) show ?thesis by (simp add: reached_def sound_temp_file)
next
  case none
  with assms(1) show ?thesis by (simp add: reached_def sound_temp_file)
next
  case (some scenes)
  let ?st = "st\<lparr>temp_file := False\<rparr>"
  let ?cs = "take (nat middle) (sort (remdups scenes))"
  have "sound (reached (scene_frames v ?cs ?st))"
  proof (rule scene_frames_sound)
    show "sound ?st" using assms(1) by (simp add: sound_temp_file)
    show "distinct ?cs" using scene_candidates(1) [OF some(1)] .
  next
    fix a b assume "a \<in> set ?cs" "b \<in> set ?cs" "a \<noteq> b"
      "keeps (duration v) a" "keeps (duration v) b"
    then show "1 \<le> \<bar>a - b\<bar>" by (rule scene_candidates(3) [OF some(1)])
  next
    fix c t assume "keeps (duration v) c" "t \<in> set (timestamps ?st)"
    with assms(2) show "1 \<le> \<bar>t - c\<bar>"
      by (auto simp: keeps_def abs_minus_commute)
  qed
  with some(2) show ?thesis by simp
qed

lemma scene_detection_grows:
  "set (timestamps st) \<subseteq> set (timestamps (reached (scene_detection v middle st)))"
proof (cases rule: scene_detection_cases [of v middle st])
  case (some scenes)
  then show ?thesis using scene_frames_grows [of "st\<lparr>temp_file := False\<rparr>" v] by simp
qed (simp_all add: reached_def)

lemma scene_detection_length:
  "length (frames (reached (scene_detection v middle st))) \<le> length (frames st) + nat middle"
proof (cases rule: scene_detection_cases [of v middle st])
  case (some scenes)
  let ?cs = "take (nat middle) (sort (remdups scenes))"
  have "length (frames (reached (scene_frames v ?cs (st\<lparr>temp_file := False\<rparr>))))
      \<le> length (frames (st\<lparr>temp_file := False\<rparr>)) + length ?cs"
    by (rule scene_frames_length)
  also have "\<dots> \<le> length (frames st) + nat middle" by simp
  finally show ?thesis using some(2) by simp
qed (simp_all add: reached_def)

lemma scene_detection_normal:
  assumes "scene_detection v middle st = Inr st'"
  shows "\<not> temp_file st'"
proof (cases rule: scene_detection_cases [of v middle st])
  case fail
  with assms show ?thesis by simp
next
  case none
  with assms show ?thesis by auto
next
  case (some scenes)
  with assms scene_frames_temp_file [of v "take (nat middle) (sort (remdups scenes))"
      "st\<lparr>temp_file := False\<rparr>"]
  show ?thesis by (simp add: reached_def)
qed

lemma scene_detection_total:
  assumes "\<forall>t. get_frame v t \<noteq> None"
  shows "scene_detection v middle st = Inl (st\<lparr>temp_file := True\<rparr>) \<or>
         (\<exists>st'. scene_detection v middle st = Inr st')"
proof (cases rule: scene_detection_cases [of v middle st])
  case (some scenes)
  then show ?thesis using scene_frames_total [OF assms] by simp
qed simp_all

lemma scene_phase_sound:
  assumes "sound st" "set (timestamps st) \<subseteq> {first_time (duration v)}"
  shows "sound (scene_phase v max_frames st)"
  using assms scene_detection_sound [OF assms] by (simp add: scene_phase_def Let_def)

lemma scene_phase_grows:
  "set (timestamps st) \<subseteq> set (timestamps (scene_phase v max_frames st))"
  using scene_detection_grows [of st v] by (simp add: scene_phase_def Let_def)

lemma scene_phase_length:
  assumes "2 \<le> max_frames"
  shows "int (length (frames (scene_phase v max_frames st))) \<le> int (length (frames st)) + (max_frames - 2)"
  using assms scene_detection_length [of v "max_frames - 2" st]
  by (auto simp: scene_phase_def Let_def)

subsection \<open>Evenly spaced fill-in\<close>

lemma uniform_loop_Cons_cases:
  fixes v :: "'f video"
  defines "time \<equiv> \<lambda>step i. min (first_time (duration v) + real i * step) (duration v - 1)"
  obtains (skip) "uniform_loop v step (i # rest) existing st = uniform_loop v step rest existing st"
  | (raise) st' where "grab v (time step i) st = Inl st'"
      "uniform_loop v step (i # rest) existing st = Inl st'"
  | (go) st' where "grab v (time step i) st = Inr st'"
      "\<forall>a\<in>set existing. 1 \<le> \<bar>a - time step i\<bar>"
      "uniform_loop v step (i # rest) existing st =
         uniform_loop v step rest (existing @ [time step i]) st'"
proof (cases "list_ex (\<lambda>t. \<bar>time step i - t\<bar> < 1.0) existing")
  case True
  then have "uniform_loop v step (i # rest) existing st = uniform_loop v step rest existing st"
    by (simp add: time_def Let_def)
  then show thesis by (rule skip)
next
  case False
  then have far: "\<forall>a\<in>set existing. 1 \<le> \<bar>a - time step i\<bar>"
    by (simp add: list_ex_close)
  show thesis
  proof (cases "grab v (time step i) st")
    case (Inl st')
    with False have "uniform_loop v step (i # rest) existing st = Inl st'"
      by (simp add: time_def Let_def)
    with Inl show thesis by (rule raise)
  next
    case (Inr st')
    with False have "uniform_loop v step (i # rest) existing st =
         uniform_loop v step rest (existing @ [time step i]) st'"
      by (simp add: time_def Let_def)
    with Inr far show thesis by (rule go)
  qed
qed

lemma uniform_loop_sound:
  assumes "sound st" "set (timestamps st) \<subseteq> set existing"
  shows "sound (reached (uniform_loop v step is existing st))"
  using assms
proof (induction "is" arbitrary: st existing)
  case Nil
  then show ?case by (simp add: reached_def)
next
  case (Cons i rest)
  show ?case
  proof (cases rule: uniform_loop_Cons_cases [of v step i rest existing st])
    case skip
    then show ?thesis using Cons.IH [OF Cons.prems] by simp
  next
    case (raise st')
    then show ?thesis using Cons.prems(1) grab_Inl(1,2) [OF raise(1)]
      by (simp add: reached_def sound_def)
  next
    case (go st')
    from go(2) Cons.prems(2) have "\<forall>a\<in>set (timestamps st). 1 \<le> \<bar>a - min (first_time (duration v) + real i * step) (duration v - 1)\<bar>"
      by auto
    from grab_sound [OF Cons.prems(1) this, of v] go(1) have "sound st'"
      by (simp add: reached_def)
    moreover from grab_Inr(1) [OF go(1)] Cons.prems(2)
    have "set (timestamps st') \<subseteq> set (existing @ [min (first_time (duration v) + real i * step) (duration v - 1)])"
      by auto
    ultimately show ?thesis using go(3) Cons.IH by simp
  qed
qed

lemma uniform_loop_grows:
  "set (timestamps st) \<subseteq> set (timestamps (reached (uniform_loop v step is existing st)))"
proof (induction "is" arbitrary: st existing)
  case Nil
  show ?case by (simp add: reached_def)
next
  case (Cons i rest)
  show ?case
  proof (cases rule: uniform_loop_Cons_cases [of v step i rest existing st])
    case skip
    then show ?thesis using Cons.IH by simp
  next
    case (raise st')
    then show ?thesis using grab_Inl(1) [OF raise(1)] by (simp add: reached_def)
  next
    case (go st')
    then show ?thesis using Cons.IH [of st'] grab_Inr(1) [OF go(1)] by auto
  qed
qed

lemma uniform_loop_length:
  "length (frames (reached (uniform_loop v step is existing st))) \<le> length (frames st) + length is"
proof (induction "is" arbitrary: st existing)
  case Nil
  show ?case by (simp add: reached_def)
next
  case (Cons i rest)
  show ?case
  proof (cases rule: uniform_loop_Cons_cases [of v step i rest existing st])
    case skip
    then show ?thesis using Cons.IH [of existing st] by simp
  next
    case (raise st')
    then show ?thesis using grab_Inl(2) [OF raise(1)] by (simp add: reached_def)
  next
    case (go st')
    then show ?thesis using Cons.IH [of _ st'] grab_Inr(2) [OF go(1)] by auto
  qed
qed

lemma uniform_loop_total:
  assumes "\<forall>t. get_frame v t \<noteq> None"
  shows "\<exists>st'. uniform_loop v step is existing st = Inr st'"
proof (induction "is" arbitrary: st existing)
  case Nil
  show ?case by simp
next
  case (Cons i rest)
  show ?case
  proof (cases rule: uniform_loop_Cons_cases [of v step i rest existing st])
    case skip
    then show ?thesis using Cons.IH by simp
  next
    case (raise st')
    then show ?thesis using grab_Inl(4) [OF raise(1)] assms by simp
  next
    case (go st')
    then show ?thesis using Cons.IH [of _ st'] by simp
  qed
qed

lemma uniform_phase_cases:
  obtains (idle) "uniform_phase v max_frames st = Inr st"
  | (fill) "is" step where "int (length (frames st)) + int (length is) = max_frames - 1"
      "uniform_phase v max_frames st = uniform_loop v step is (timestamps st) st"
proof (cases "int (length (frames st)) < max_frames - 1")
  case False
  then have "uniform_phase v max_frames st = Inr st" by (simp add: uniform_phase_def)
  then show thesis by (rule idle)
next
  case True
  let ?r = "max_frames - 1 - int (length (frames st))"
  from True have "uniform_phase v max_frames st =
      uniform_loop v (duration v / real_of_int (?r + 2)) [1 ..< nat ?r + 1] (timestamps st) st"
    by (simp add: uniform_phase_def Let_def)
  moreover from True have "int (length (frames st)) + int (length [1 ..< nat ?r + 1]) = max_frames - 1" by simp
  ultimately show thesis by (rule fill [rotated])
qed

lemma uniform_phase_sound:
  assumes "sound st"
  shows "sound (reached (uniform_phase v max_frames st))"
proof (cases rule: uniform_phase_cases [of v max_frames st])
  case idle
  with assms show ?thesis by (simp add: reached_def)
next
  case (fill "is" step)
  then show ?thesis using uniform_loop_sound [OF assms, of "timestamps st"] by simp
qed

lemma uniform_phase_grows:
  "set (timestamps st) \<subseteq> set (timestamps (reached (uniform_phase v max_frames st)))"
proof (cases rule: uniform_phase_cases [of v max_frames st])
  case idle
  then show ?thesis by (simp add: reached_def)
next
  case (fill "is" step)
  then show ?thesis using uniform_loop_grows [of st v] by simp
qed

lemma uniform_phase_length:
  assumes "int (length (frames st)) \<le> max_frames - 1"
  shows "int (length (frames (reached (uniform_phase v max_frames st)))) \<le> max_frames - 1"
proof (cases rule: uniform_phase_cases [of v max_frames st])
  case idle
  with assms show ?thesis by (simp add: reached_def)
next
  case (fill "is" step)
  have "length (frames (reached (uniform_loop v step is (timestamps st) st)))
      \<le> length (frames st) + length is"
    by (rule uniform_loop_length)
  with fill show ?thesis by simp
qed

lemma uniform_phase_total:
  assumes "\<forall>t. get_frame v t \<noteq> None"
  shows "\<exists>st'. uniform_phase v max_frames st = Inr st'"
proof (cases rule: uniform_phase_cases [of v max_frames st])
  case idle
  then show ?thesis by simp
next
  case (fill "is" step)
  then show ?thesis using uniform_loop_total [OF assms] by simp
qed

subsection \<open>The end anchor\<close>

lemma last_phase_sound:
  assumes "sound st"
  shows "sound (reached (last_phase v st))"
proof (cases "list_ex (\<lambda>t. \<bar>last_time (duration v) - t\<bar> < 1.0) (timestamps st)")
  case True
  with assms show ?thesis by (simp add: last_phase_def reached_def)
next
  case False
  then have "\<forall>a\<in>set (timestamps st). 1 \<le> \<bar>a - last_time (duration v)\<bar>"
    by (simp add: list_ex_close)
  from grab_sound [OF assms this, of v] False show ?thesis by (simp add: last_phase_def)
qed

lemma last_phase_grows:
  "set (timestamps st) \<subseteq> set (timestamps (reached (last_phase v st)))"
  using grab_reached(1) [of st v] by (simp add: last_phase_def reached_def)

lemma last_phase_length:
  "length (frames (reached (last_phase v st))) \<le> Suc (length (frames st))"
  using grab_reached(4) [of v _ st] by (simp add: last_phase_def reached_def)

lemma last_phase_near_end:
  assumes "last_phase v st = Inr st'"
  shows "\<exists>t\<in>set (timestamps st'). last_time (duration v) - 1 < t"
proof (cases "list_ex (\<lambda>t. \<bar>last_time (duration v) - t\<bar> < 1.0) (timestamps st)")
  case True
  with assms have "st' = st" by (simp add: last_phase_def)
  moreover from True obtain t where "t \<in> set (timestamps st)" "\<bar>last_time (duration v) - t\<bar> < 1"
    by (auto simp: list_ex_iff)
  ultimately show ?thesis by (intro bexI [of _ t]) auto
next
  case False
  with assms have "grab v (last_time (duration v)) st = Inr st'" by (simp add: last_phase_def)
  from grab_Inr(1) [OF this] show ?thesis by (intro bexI [of _ "last_time (duration v)"]) auto
qed

lemma last_phase_total:
  assumes "\<forall>t. get_frame v t \<noteq> None"
  shows "\<exists>st'. last_phase v st = Inr st'"
  using grab_total [of v "last_time (duration v)" st] assms by (simp add: last_phase_def)

subsection \<open>The body of the sampler\<close>

lemma sound_init: "sound sampler_init"
  by (simp add: sound_def sampler_init_def apart_def)

lemma sample_body_cases:
  obtains (first) st where "grab v (first_time (duration v)) sampler_init = Inl st"
      "sample_body v max_frames = Inl st"
  | (fill) st1 st3 where "grab v (first_time (duration v)) sampler_init = Inr st1"
      "uniform_phase v max_frames (scene_phase v max_frames st1) = Inl st3"
      "sample_body v max_frames = Inl st3"
  | (last) st1 st3 where "grab v (first_time (duration v)) sampler_init = Inr st1"
      "uniform_phase v max_frames (scene_phase v max_frames st1) = Inr st3"
      "sample_body v max_frames = last_phase v st3"
proof (cases "grab v (first_time (duration v)) sampler_init")
  case (Inl st)
  then have "sample_body v max_frames = Inl st" by (simp add: sample_body_def)
  with Inl show thesis by (rule first)
next
  case (Inr st1)
  show thesis
  proof (cases "uniform_phase v max_frames (scene_phase v max_frames st1)")
    case (Inl st3)
    with Inr have "sample_body v max_frames = Inl st3" by (simp add: sample_body_def)
    with Inr Inl show thesis by (rule fill)
  next
    case st3: (Inr st3)
    with Inr have "sample_body v max_frames = last_phase v st3" by (simp add: sample_body_def)
    with Inr st3 show thesis by (rule last)
  qed
qed

lemma first_grab:
  assumes "grab v t sampler_init = Inr st1"
  shows "sound st1" and "timestamps st1 = [t]" and "length (frames st1) = 1"
proof -
  from grab_Inr [OF assms] show "timestamps st1 = [t]" "length (frames st1) = 1"
    by (simp_all add: sampler_init_def)
  then show "sound st1" by (simp add: sound_def apart_def)
qed

lemma middle_sound:
  assumes "grab v (first_time (duration v)) sampler_init = Inr st1"
  shows "sound (reached (uniform_phase v max_frames (scene_phase v max_frames st1)))"
  using first_grab(1,2) [OF assms]
  by (intro uniform_phase_sound scene_phase_sound) simp_all

lemma middle_grows:
  assumes "grab v (first_time (duration v)) sampler_init = Inr st1"
  shows "first_time (duration v)
    \<in> set (timestamps (reached (uniform_phase v max_frames (scene_phase v max_frames st1))))"
  using first_grab(2) [OF assms] scene_phase_grows [of st1 v max_frames]
    uniform_phase_grows [of "scene_phase v max_frames st1" v max_frames]
  by auto

lemma middle_length:
  assumes "grab v (first_time (duration v)) sampler_init = Inr st1" "2 \<le> max_frames"
  shows "int (length (frames (reached (uniform_phase v max_frames (scene_phase v max_frames st1)))))
     \<le> max_frames - 1"
  using first_grab(3) [OF assms(1)] scene_phase_length [OF assms(2), of v st1]
  by (intro uniform_phase_length) simp

lemma sample_body_sound: "sound (reached (sample_body v max_frames))"
proof (cases rule: sample_body_cases [of v max_frames])
  case (first st)
  with grab_Inl(1,2) [OF first(1)] sound_init show ?thesis
    by (simp add: reached_def sound_def)
next
  case (fill st1 st3)
  with middle_sound [OF fill(1), of max_frames] show ?thesis by (simp add: reached_def)
next
  case (last st1 st3)
  with middle_sound [OF last(1), of max_frames] have "sound st3" by (simp add: reached_def)
  then show ?thesis unfolding last(3) by (rule last_phase_sound)
qed

lemma sample_body_anchors:
  assumes "sample_body v max_frames = Inr st"
  shows "first_time (duration v) \<in> set (timestamps st)"
    and "\<exists>t\<in>set (timestamps st). last_time (duration v) - 1 < t"
proof -
  from assms obtain st1 st3
    where g: "grab v (first_time (duration v)) sampler_init = Inr st1"
      and u: "uniform_phase v max_frames (scene_phase v max_frames st1) = Inr st3"
      and l: "last_phase v st3 = Inr st"
    by (cases rule: sample_body_cases [of v max_frames]) auto
  from middle_grows [OF g, of max_frames] u have "first_time (duration v) \<in> set (timestamps st3)"
    by (simp add: reached_def)
  with last_phase_grows [of st3 v] l show "first_time (duration v) \<in> set (timestamps st)"
    by (auto simp: reached_def)
  from l show "\<exists>t\<in>set (timestamps st). last_time (duration v) - 1 < t"
    by (rule last_phase_near_end)
qed

lemma sample_body_length:
  assumes "2 \<le> max_frames"
  shows "int (length (frames (reached (sample_body v max_frames)))) \<le> max_frames"
proof (cases rule: sample_body_cases [of v max_frames])
  case (first st)
  with grab_Inl(2) [OF first(1)] assms show ?thesis
    by (simp add: reached_def sampler_init_def)
next
  case (fill st1 st3)
  with middle_length [OF fill(1) assms] show ?thesis by (simp add: reached_def)
next
  case (last st1 st3)
  with middle_length [OF last(1) assms] have "int (length (frames st3)) \<le> max_frames - 1"
    by (simp add: reached_def)
  with last_phase_length [of v st3] show ?thesis unfolding last(3) by simp
qed

lemma sample_body_total:
  assumes "\<forall>t. get_frame v t \<noteq> None"
  shows "\<exists>st. sample_body v max_frames = Inr st"
proof (cases rule: sample_body_cases [of v max_frames])
  case (first st)
  with grab_Inl(4) [OF first(1)] assms show ?thesis by simp
next
  case (fill st1 st3)
  with uniform_phase_total [OF assms, of max_frames "scene_phase v max_frames st1"]
  show ?thesis by simp
next
  case (last st1 st3)
  with last_phase_total [OF assms, of st3] show ?thesis by simp
qed

subsection \<open>What is returned\<close>

lemma returned_times:
  assumes "extract_strategic_frames v max_frames = Returned fs ts" "0 < duration v"
  obtains st where "sample_body v max_frames = Inr st" "ts = sort (timestamps st)"
    "length fs = length (frames st)" "sound st"
proof -
  from assms obtain st where st: "sample_body v max_frames = Inr st"
    and r: "fs = map fst (sort_key snd (zip (frames st) (timestamps st)))"
      "ts = map snd (sort_key snd (zip (frames st) (timestamps st)))"
    by (auto simp: extract_strategic_frames_def Let_def split: sum.splits)
  from sample_body_sound [of v max_frames] st have s: "sound st" by (simp add: reached_def)
  then have len: "length (frames st) = length (timestamps st)" by (simp add: sound_def)
  from r(2) len have "ts = sort (timestamps st)" by (simp add: sorted_times)
  moreover from r(1) len have "length fs = length (frames st)" by simp
  ultimately show thesis using st s by (intro that)
qed

lemma returned_nothing:
  assumes "extract_strategic_frames v max_frames = Returned fs ts" "duration v \<le> 0"
  shows "fs = []" "ts = []"
  using assms by (simp_all add: extract_strategic_frames_def)

lemma returns_if_decodable:
  assumes "\<forall>t. get_frame v t \<noteq> None"
  shows "\<exists>fs ts. extract_strategic_frames v max_frames = Returned fs ts"
  using sample_body_total [OF assms, of max_frames]
  by (auto simp: extract_strategic_frames_def Let_def)

section \<open>The claims\<close>

lemmas model_defs = extract_strategic_frames_def sample_body_def grab_def sampler_init_def
  scene_phase_def uniform_phase_def last_phase_def first_time_def last_time_def clip_def
  scene_detection_def scene_scan_def scan_with_def scan_step_def scan_init_def min_scene_length_def
  subclip_duration_def threshold_def mean_diff_def final_state_def reached_def

text \<open>
  C3. The timestamps the sampler returns are strictly increasing: ascending, and no two equal,
  whatever the duration, \<^verbatim>\<open>max_frames\<close> and the frames the scan reads. And it does return
  when every decode succeeds.
\<close>

theorem returned_timestamps_strictly_increasing:
  "(\<forall>fs ts. extract_strategic_frames v max_frames = Returned fs ts \<longrightarrow> sorted_wrt (<) ts) \<and>
   ((\<forall>t. get_frame v t \<noteq> None) \<longrightarrow>
      (\<exists>fs ts. extract_strategic_frames v max_frames = Returned fs ts))"
proof (intro conjI allI impI)
  fix fs ts
  assume r: "extract_strategic_frames v max_frames = Returned fs ts"
  show "sorted_wrt (<) ts"
  proof (cases "0 < duration v")
    case False
    with returned_nothing(2) [OF r] show ?thesis by simp
  next
    case True
    from r True obtain st where "sample_body v max_frames = Inr st"
      "ts = sort (timestamps st)" "sound st"
      by (rule returned_times) blast
    then show ?thesis by (simp add: strict_sorted_iff sound_def apart_iff)
  qed
next
  assume "\<forall>t. get_frame v t \<noteq> None"
  then show "\<exists>fs ts. extract_strategic_frames v max_frames = Returned fs ts"
    by (rule returns_if_decodable)
qed

theorem returned_timestamps_strictly_increasing_witness:
  "(\<forall>t. get_frame (clip 10 1 [[0], [0], [100], [0], [100]]) t \<noteq> None) \<and>
   extract_strategic_frames (clip 10 1 [[0], [0], [100], [0], [100]]) 7
     = Returned [1/2, 2, 3, 4, 11/2, 19/2] [1/2, 2, 3, 4, 11/2, 19/2] \<and>
   sorted_wrt (<) [1/2, 2, 3, 4, 11/2, 19/2 :: real]"
proof -
  have d: "\<forall>t. get_frame (clip 10 1 [[0], [0], [100], [0], [100]]) t \<noteq> None"
    by (simp add: clip_def)
  have r: "extract_strategic_frames (clip 10 1 [[0], [0], [100], [0], [100]]) 7
     = Returned [1/2, 2, 3, 4, 11/2, 19/2] [1/2, 2, 3, 4, 11/2, 19/2]"
    by (simp add: model_defs Let_def upt_rec)
  from returned_timestamps_strictly_increasing
    [of "clip 10 1 [[0], [0], [100], [0], [100]]" 7] r d
  show ?thesis by blast
qed

text \<open>
  C10. When every decode succeeds and the duration is positive, the sampler returns, and any two
  entries of the returned list of timestamps, adjacent or not, differ by at least one second.
\<close>

theorem returned_timestamps_one_second_apart:
  assumes "\<forall>t. get_frame v t \<noteq> None" "0 < duration v"
  shows "\<exists>fs ts. extract_strategic_frames v max_frames = Returned fs ts \<and>
           (\<forall>i<length ts. \<forall>j<length ts. i \<noteq> j \<longrightarrow> 1 \<le> \<bar>ts ! i - ts ! j\<bar>)"
proof -
  from returns_if_decodable [OF assms(1)]
  obtain fs ts where r: "extract_strategic_frames v max_frames = Returned fs ts" by blast
  from r assms(2) obtain st where "sample_body v max_frames = Inr st"
    "ts = sort (timestamps st)" "sound st"
    by (rule returned_times) blast
  then have "apart ts" by (simp add: sound_def apart_sort)
  then have "\<forall>i<length ts. \<forall>j<length ts. i \<noteq> j \<longrightarrow> 1 \<le> \<bar>ts ! i - ts ! j\<bar>"
    by (auto intro: apart_nth)
  with r show ?thesis by blast
qed

theorem returned_timestamps_one_second_apart_witness:
  "(\<forall>t. get_frame (clip 4 25 []) t \<noteq> None) \<and> 0 < duration (clip 4 25 []) \<and>
   (\<exists>fs ts. extract_strategic_frames (clip 4 25 []) 7 = Returned fs ts \<and>
      (\<forall>i<length ts. \<forall>j<length ts. i \<noteq> j \<longrightarrow> 1 \<le> \<bar>ts ! i - ts ! j\<bar>))"
proof -
  have h: "\<forall>t. get_frame (clip 4 25 []) t \<noteq> None" "0 < duration (clip 4 25 [])"
    by (simp_all add: clip_def)
  from returned_timestamps_one_second_apart [OF h, of 7] h show ?thesis by blast
qed

text \<open>
  C6. A video of two seconds, sampled with \<^verbatim>\<open>max_frames = 7\<close> and every decode succeeding:
  scene detection is skipped, no evenly spaced candidate is decoded, and the result is the two
  anchors 0.2 and 1.8.
\<close>

theorem two_second_video:
  assumes "duration v = 2" "\<forall>t. get_frame v t \<noteq> None"
  shows "(\<exists>f1 f2. extract_strategic_frames v 7 = Returned [f1, f2] [0.2, 1.8]) \<and>
         scene_phase v 7 st = st \<and>
         decoded (final_state v 7) = [0.2, 1.8]"
proof -
  from assms(2) obtain f1 f2
    where f: "get_frame v (1/5) = Some f1" "get_frame v (9/5) = Some f2"
    by (metis option.exhaust)
  show ?thesis using assms(1) f
    by (simp add: model_defs Let_def upt_rec)
qed

theorem two_second_video_witness:
  "duration (clip 2 25 []) = 2 \<and> (\<forall>t. get_frame (clip 2 25 []) t \<noteq> None) \<and>
   extract_strategic_frames (clip 2 25 []) 7 = Returned [0.2, 1.8] [0.2, 1.8] \<and>
   decoded (final_state (clip 2 25 []) 7) = [0.2, 1.8]"
proof -
  have h: "duration (clip 2 25 []) = 2" "\<forall>t. get_frame (clip 2 25 []) t \<noteq> None"
    by (simp_all add: clip_def)
  have "get_frame (clip 2 25 []) t = Some t" for t by (simp add: clip_def)
  with two_second_video [OF h, of sampler_init] h show ?thesis
    by (auto simp: model_defs Let_def upt_rec)
qed




text \<open>
  C2. The docstring calls \<^verbatim>\<open>max_frames\<close> the maximum number of frames to extract, and for
  \<^verbatim>\<open>max_frames \<ge> 2\<close> the code keeps to it; the fill-in even reserves a slot for the end
  anchor. With \<^verbatim>\<open>max_frames = 1\<close> the end anchor is added all the same: a video of ten seconds
  yields two frames.
\<close>

theorem two_frames_for_max_frames_one:
  "extract_strategic_frames (clip 10 25 []) 1 = Returned [1/2, 19/2] [1/2, 19/2] \<and>
   \<not> int (length [1/2, 19/2 :: real]) \<le> 1"
  by (simp add: model_defs Let_def)

text \<open>The rest of C2 holds: the bound from two on, and the empty result exactly for a
  duration that is not positive.\<close>

lemma at_most_max_frames:
  assumes "extract_strategic_frames v max_frames = Returned fs ts" "2 \<le> max_frames"
  shows "int (length ts) \<le> max_frames" and "length fs = length ts"
    and "ts = [] \<longleftrightarrow> duration v \<le> 0"
proof -
  have "int (length ts) \<le> max_frames \<and> length fs = length ts \<and> (ts = [] \<longleftrightarrow> duration v \<le> 0)"
  proof (cases "0 < duration v")
    case False
    with assms returned_nothing [OF assms(1)] show ?thesis by simp
  next
    case True
    from assms(1) True obtain st where st: "sample_body v max_frames = Inr st"
      "ts = sort (timestamps st)" "length fs = length (frames st)" "sound st"
      by (rule returned_times) blast
    from sample_body_length [OF assms(2), of v] st(1)
    have "int (length (frames st)) \<le> max_frames" by (simp add: reached_def)
    moreover from st(4) have "length (frames st) = length (timestamps st)"
      by (simp add: sound_def)
    moreover from sample_body_anchors(1) [OF st(1)] have "timestamps st \<noteq> []" by auto
    then have "sort (timestamps st) \<noteq> []"
      by (metis length_0_conv length_sort)
    ultimately show ?thesis using st(2,3) True by simp
  qed
  then show "int (length ts) \<le> max_frames" "length fs = length ts"
    "ts = [] \<longleftrightarrow> duration v \<le> 0" by simp_all
qed






text \<open>
  C7, as stated, fails. Ten seconds and \<^verbatim>\<open>max_frames = 4\<close>: the code spaces the scenes by
  10 / 4 = 2.5 seconds, the claim's formula gives (10 - 0.5) / 4 = 2.375. On a capture with a
  frame every 2.375 seconds the two spacings give different candidates.
\<close>

theorem spacing_ignores_first_time:
  "min_scene_length 10 (4 - 2) = 5/2 \<and>
   max 1 ((10 - first_time 10) / real_of_int ((4 - 2) * 2)) = 19/8 \<and>
   scene_scan (clip 10 (8/19) [[0], [0], [100], [0]]) (4 - 2) = Inr [19/4] \<and>
   scan_with (clip 10 (8/19) [[0], [0], [100], [0]])
     (max 1 ((10 - first_time 10) / real_of_int ((4 - 2) * 2))) (4 - 2) = Inr [19/4, 57/8]"
  by (simp add: model_defs Let_def)

text \<open>
  C7, amended. The spacing the scan uses is \<^verbatim>\<open>max(1.0, subclip_duration / (middle_frames * 2))\<close>
  where \<^verbatim>\<open>subclip_duration\<close> is the length of the re-encoded clip, which starts at 0: the
  duration, capped at 60 seconds; \<^verbatim>\<open>first_time\<close> is not subtracted.
  \<^verbatim>\<open>middle_frames = max_frames - 2\<close>.
\<close>

theorem spacing_of_the_scan:
  "scene_scan v (max_frames - 2) =
     scan_with v (max 1 (min (duration v) 60 / real_of_int ((max_frames - 2) * 2)))
       (max_frames - 2)"
  by (simp add: scene_scan_def min_scene_length_def subclip_duration_def min_def)

text \<open>
  C8, as stated, fails. With \<^verbatim>\<open>max_frames = 0\<close> the sampler decodes both anchors of a video of
  ten seconds and returns them; with a negative duration it returns the empty result. Neither
  call signals a failure.
\<close>

theorem no_configuration_errors:
  "extract_strategic_frames (clip 10 25 []) 0 = Returned [1/2, 19/2] [1/2, 19/2] \<and>
   decoded (final_state (clip 10 25 []) 0) = [1/2, 19/2] \<and>
   extract_strategic_frames (clip (- 3) 25 []) 7 = Returned [] [] \<and>
   extract_strategic_frames (clip (- 3) 25 []) 7 \<noteq> Raised"
  by (simp add: model_defs Let_def)

text \<open>
  C8, amended. Nothing is rejected. A duration that is not positive gives the empty result,
  returned normally, before any decode. \<^verbatim>\<open>max_frames < 1\<close> is not checked: for a positive
  duration (every decode succeeding) the sampler decodes the start anchor, and the end anchor
  when it is at least a second away, and returns what it decoded.
\<close>

theorem invalid_configuration_is_served:
  "(duration v \<le> 0 \<longrightarrow>
      extract_strategic_frames v max_frames = Returned [] [] \<and>
      decoded (final_state v max_frames) = []) \<and>
   (0 < duration v \<and> max_frames < 1 \<and> (\<forall>t. get_frame v t \<noteq> None) \<longrightarrow>
      (\<exists>fs. extract_strategic_frames v max_frames =
         Returned fs (if \<bar>last_time (duration v) - first_time (duration v)\<bar> < 1
                      then [first_time (duration v)]
                      else [first_time (duration v), last_time (duration v)])) \<and>
      decoded (final_state v max_frames) =
        (if \<bar>last_time (duration v) - first_time (duration v)\<bar> < 1
         then [first_time (duration v)]
         else [first_time (duration v), last_time (duration v)]))"
proof (intro conjI impI)
  assume "duration v \<le> 0"
  then show "extract_strategic_frames v max_frames = Returned [] []"
    "decoded (final_state v max_frames) = []"
    by (simp_all add: extract_strategic_frames_def final_state_def sampler_init_def)
next
  assume a: "0 < duration v \<and> max_frames < 1 \<and> (\<forall>t. get_frame v t \<noteq> None)"
  let ?f = "first_time (duration v)" and ?l = "last_time (duration v)"
  from a obtain f1 f2 where f: "get_frame v ?f = Some f1" "get_frame v ?l = Some f2"
    by (metis option.exhaust)
  from a have le: "?f \<le> ?l" by (simp add: first_time_def last_time_def min_def max_def)
  have body: "sample_body v max_frames =
      (if \<bar>?l - ?f\<bar> < 1
       then Inr \<lparr>frames = [f1], timestamps = [?f], decoded = [?f], temp_file = False\<rparr>
       else Inr \<lparr>frames = [f1, f2], timestamps = [?f, ?l], decoded = [?f, ?l],
                 temp_file = False\<rparr>)"
    using a f
    by (simp add: sample_body_def grab_def sampler_init_def scene_phase_def uniform_phase_def
        last_phase_def Let_def)
  show "\<exists>fs. extract_strategic_frames v max_frames =
         Returned fs (if \<bar>?l - ?f\<bar> < 1 then [?f] else [?f, ?l])"
    using a le by (simp add: extract_strategic_frames_def body)
  show "decoded (final_state v max_frames) = (if \<bar>?l - ?f\<bar> < 1 then [?f] else [?f, ?l])"
    using a by (simp add: final_state_def body reached_def)
qed

theorem invalid_configuration_is_served_witness:
  "duration (clip (- 3) 25 []) \<le> 0 \<and>
   extract_strategic_frames (clip (- 3) 25 []) 7 = Returned [] [] \<and>
   decoded (final_state (clip (- 3) 25 []) 7) = [] \<and>
   0 < duration (clip 10 25 []) \<and> (0::int) < 1 \<and> (\<forall>t. get_frame (clip 10 25 []) t \<noteq> None) \<and>
   (\<exists>fs. extract_strategic_frames (clip 10 25 []) 0 = Returned fs [1/2, 19/2]) \<and>
   decoded (final_state (clip 10 25 []) 0) = [1/2, 19/2]"
proof -
  have a: "duration (clip (- 3) 25 []) \<le> 0" by (simp add: clip_def)
  have b: "0 < duration (clip 10 25 []) \<and> (0::int) < 1 \<and> (\<forall>t. get_frame (clip 10 25 []) t \<noteq> None)"
    by (simp add: clip_def)
  have c: "first_time (duration (clip 10 25 [])) = 1/2" "last_time (duration (clip 10 25 [])) = 19/2"
    by (simp_all add: clip_def first_time_def last_time_def)
  from invalid_configuration_is_served [of "clip (- 3) 25 []" 7]
    invalid_configuration_is_served [of "clip 10 25 []" 0] a b
  show ?thesis unfolding c by simp
qed

text \<open>
  C9. The temporary file is removed by the one \<^verbatim>\<open>os.remove\<close> after the scan; the
  \<^verbatim>\<open>except\<close> clause does not remove it. When the re-encoding raises, or the capture reports a
  frame rate of zero, the sampler returns normally and the file is still there.
\<close>

theorem temporary_file_left_behind:
  "temp_file (final_state ((clip 10 25 [])\<lparr>write_videofile := False\<rparr>) 7) \<and>
   (\<exists>fs ts. extract_strategic_frames ((clip 10 25 [])\<lparr>write_videofile := False\<rparr>) 7
      = Returned fs ts) \<and>
   temp_file (final_state (clip 10 0 [[0]]) 7) \<and>
   (\<exists>fs ts. extract_strategic_frames (clip 10 0 [[0]]) 7 = Returned fs ts)"
  by (simp add: model_defs Let_def upt_rec)

text \<open>On the path without an exception the file is removed.\<close>

lemma temporary_file_removed_normally:
  "scene_detection v middle_frames st = Inr st' \<Longrightarrow> \<not> temp_file st'"
  by (rule scene_detection_normal)

subsection \<open>The scan, frame by frame\<close>

lemma exact_mean_absdiff: "exact_mean (absdiff p frame) = mean_diff p frame"
  by (simp add: mean_diff_def absdiff_def exact_mean_def Let_def)

lemma scan_step_fp_exact:
  "scan_step_fp (/) (-) exact_mean first m middle d fps st frame =
     scan_step first m middle d fps st frame"
  by (simp add: scan_step_fp_def scan_step_def exact_mean_absdiff Let_def
      split: option.splits)

lemma scan_loop_fp_exact:
  "scan_loop_fp (/) (-) exact_mean first m middle d fps st fs =
     scan_loop first m middle d fps st fs"
  by (induction fs arbitrary: st) (simp_all add: scan_step_fp_exact split: scan_outcome.splits)

lemma scan_loop_fp_snoc:
  "scan_loop_fp fdiv fsub fmean first m middle d fps st (fs @ [frame]) =
     (case scan_loop_fp fdiv fsub fmean first m middle d fps st fs of
        Continue st' \<Rightarrow> scan_step_fp fdiv fsub fmean first m middle d fps st' frame
      | Break st' \<Rightarrow> Break st'
      | Failed e \<Rightarrow> Failed e)"
proof (induction fs arbitrary: st)
  case Nil
  show ?case by (simp split: scan_outcome.splits)
next
  case (Cons f fs)
  show ?case by (simp add: Cons.IH split: scan_outcome.splits)
qed

lemma scan_step_fp_count:
  "scan_step_fp fdiv fsub fmean first m middle d fps st frame = Continue st' \<Longrightarrow>
     frame_count st' = Suc (frame_count st)"
  by (auto simp: scan_step_fp_def Let_def split: if_splits option.splits)

lemma scan_loop_fp_count:
  "scan_loop_fp fdiv fsub fmean first m middle d fps st fs = Continue st' \<Longrightarrow>
     frame_count st' = frame_count st + length fs"
proof (induction fs arbitrary: st)
  case Nil
  then show ?case by simp
next
  case (Cons f fs)
  then show ?case
    by (auto split: scan_outcome.splits dest!: scan_step_fp_count)
qed

text \<open>
  C5, as stated, fails, in both directions. First capture: two frames per second, the frame at
  1.0 s differs from the one before it; a candidate is emitted at 1.0 s although that is only
  0.5 s after the start of the window (0.5 s) and the spacing is 1 s. Second capture: one
  frame every two seconds, the frame at 2.0 s differs from the adjacent frame at 0 s by more
  than the threshold and is 1.5 s after the start of the window; no candidate is emitted, since
  the frame at 0 s was skipped and never became \<^verbatim>\<open>prev_frame\<close>.
\<close>

theorem scan_differs_from_adjacent_pair_rule:
  "scene_scan (clip 10 2 [[0], [0], [100]]) 5 = Inr [1] \<and>
   \<not> min_scene_length 10 5 \<le> 1 - first_time 10 \<and>
   scene_scan (clip 10 (1/2) [[0], [100], [100]]) 5 = Inr [] \<and>
   threshold < mean_diff [0] [100] \<and>
   min_scene_length 10 5 \<le> 2 - first_time 10"
  by (simp add: model_defs Let_def)

text \<open>
  C5, amended. Let the scan have read the frames \<open>fs\<close> without stopping (fewer than
  \<^verbatim>\<open>middle_frames\<close> candidates so far, a frame rate other than zero), and let \<open>frame\<close> be read
  next. Its time is \<^verbatim>\<open>frame_count / fps\<close> with \<^verbatim>\<open>frame_count = len(fs)\<close>, as the machine
  computes the quotient. A candidate is emitted for it (at this time, clamped to the duration
  for a video longer than 60 s) exactly when the time is not less than the start of the
  window, the difference between the time and the previously emitted candidate, as the machine
  computes it, is not less than the spacing if there is such a candidate (nothing is required
  when there is none), and the mean absolute difference between the frame and
  \<^verbatim>\<open>prev_frame\<close>, as computed, exceeds the threshold. \<^verbatim>\<open>prev_frame\<close> is the most recent frame
  that was not skipped by one of the first two tests, not the adjacent one; there is none
  before the first such frame. This holds whatever the rounding of the three operations is.
\<close>

theorem candidate_emitted_iff:
  assumes "scan_loop_fp fdiv fsub fmean first m middle d fps scan_init fs = Continue st"
    and "fps \<noteq> 0"
  defines "frame_time \<equiv> fdiv (real (length fs)) fps"
  defines "in_window \<equiv> first \<le> frame_time \<and>
     (scene_timestamps st = [] \<or> m \<le> fsub frame_time (last (scene_timestamps st)))"
  shows "emitted (scan_loop_fp fdiv fsub fmean first m middle d fps scan_init (fs @ [frame])) =
           (if in_window \<and> (\<exists>p. prev_frame st = Some p \<and> threshold < fmean (absdiff p frame))
            then scene_timestamps st @ [if 60 < d then min frame_time d else frame_time]
            else scene_timestamps st) \<and>
         (\<forall>st'. scan_loop_fp fdiv fsub fmean first m middle d fps scan_init (fs @ [frame])
                 = Continue st' \<longrightarrow>
            prev_frame st' = (if in_window then Some frame else prev_frame st))"
proof -
  from scan_loop_fp_count [OF assms(1)] have c: "frame_count st = length fs"
    by (simp add: scan_init_def)
  have s: "scan_loop_fp fdiv fsub fmean first m middle d fps scan_init (fs @ [frame]) =
      scan_step_fp fdiv fsub fmean first m middle d fps st frame"
    by (simp add: scan_loop_fp_snoc assms(1))
  show ?thesis
    unfolding s in_window_def frame_time_def
    by (cases "prev_frame st")
      (auto simp: scan_step_fp_def Let_def c not_less \<open>fps \<noteq> 0\<close>)
qed

text \<open>
  Two instances. With exact operations, at two frames per second, the frame at 1.0 s is
  emitted. With a subtraction that returns a value just below 1 where the exact difference is
  1 (as the subtraction of the doubles 1.9 and 0.9 does), the frame one second after the
  candidate at 2 s is skipped.
\<close>

theorem candidate_emitted_iff_witness:
  "scan_loop_fp (/) (-) exact_mean (1/2) 1 5 10 2 scan_init [[0], [0]]
     = Continue \<lparr>prev_frame = Some [0], scene_timestamps = [], frame_count = 2\<rparr> \<and>
   (2::real) \<noteq> 0 \<and>
   emitted (scan_loop_fp (/) (-) exact_mean (1/2) 1 5 10 2 scan_init ([[0], [0]] @ [[100]]))
     = [1] \<and>
   scan_loop_fp (/) (\<lambda>a b. if a - b = 1 then 1 - 1 / 2 ^ 53 else a - b) exact_mean
       (1/2) 1 5 10 1 scan_init [[0], [0], [100]]
     = Continue \<lparr>prev_frame = Some [100], scene_timestamps = [2], frame_count = 3\<rparr> \<and>
   (1::real) \<noteq> 0 \<and>
   emitted (scan_loop_fp (/) (\<lambda>a b. if a - b = 1 then 1 - 1 / 2 ^ 53 else a - b) exact_mean
       (1/2) 1 5 10 1 scan_init ([[0], [0], [100]] @ [[0]])) = [2]"
proof -
  have r: "scan_loop_fp (/) (-) exact_mean (1/2) 1 5 10 2 scan_init [[0], [0]]
     = Continue \<lparr>prev_frame = Some [0], scene_timestamps = [], frame_count = 2\<rparr>"
    by (simp add: scan_step_fp_def scan_init_def Let_def)
  have t: "threshold < exact_mean (absdiff [0] [100])"
    by (simp add: threshold_def exact_mean_def absdiff_def)
  have f: "(2::real) \<noteq> 0" by simp
  have r': "scan_loop_fp (/) (\<lambda>a b. if a - b = 1 then 1 - 1 / 2 ^ 53 else a - b) exact_mean
       (1/2) 1 5 10 1 scan_init [[0], [0], [100]]
     = Continue \<lparr>prev_frame = Some [100], scene_timestamps = [2], frame_count = 3\<rparr>"
    by (simp add: scan_step_fp_def scan_init_def Let_def threshold_def exact_mean_def
        absdiff_def)
  have f': "(1::real) \<noteq> 0" by simp
  from candidate_emitted_iff [OF r f, of "[100]"]
    candidate_emitted_iff [OF r' f', of "[0]"] r r' t
  show ?thesis by simp
qed

end
